theory Spec2Isabelle
  imports Main
begin

section \<open>The to-do list client (02AfterSPA/Scripts/app.ts)\<close>

text \<open>
  A shallow embedding of the service and the controller of \<^verbatim>\<open>app.ts\<close>.
  The program is single-threaded and event-driven: a user action or the settlement of an
  HTTP call runs one handler to completion. The embedding is a state record (the
  \<open>world\<close>), one state transformer per method and per promise callback, and a
  \<open>step\<close> function that runs the handler of one event.
\<close>

subsection \<open>Data model\<close>

text \<open>\<^verbatim>\<open>interface ITodoFilter\<close>: sent to the server for sorting and filtering.\<close>

record ITodoFilter =
  filterText :: string
  columnName :: string
  sortAscending :: bool

text \<open>
  \<^verbatim>\<open>interface ITodoItem\<close>. The field \<^verbatim>\<open>Id\<close> is written \<open>Id'\<close> (\<open>Id\<close> is the
  identity relation of HOL); it is a JavaScript number holding an integer identity.
\<close>

record ITodoItem =
  Id' :: int
  IsDone :: bool
  Description :: string
  DueDate :: string

text \<open>
  \<^verbatim>\<open>enum Columns\<close>. TypeScript compiles an enum to an object that maps each member to
  its number and each number back to the member's name; \<open>Columns_value\<close> is the first
  mapping, \<open>Columns_name\<close> the second, so that \<^verbatim>\<open>Columns[Columns.DueDate]\<close> is
  \<open>Columns_name (Columns_value Columns_DueDate)\<close>. An index that names no member
  gives \<^verbatim>\<open>undefined\<close>, here \<open>None\<close>.
\<close>

datatype Columns = Columns_Id | Columns_Completed | Columns_Description | Columns_DueDate

fun Columns_value :: "Columns \<Rightarrow> nat" where
  "Columns_value Columns_Id = 0"
| "Columns_value Columns_Completed = 1"
| "Columns_value Columns_Description = 2"
| "Columns_value Columns_DueDate = 3"

definition Columns_name :: "nat \<Rightarrow> string option" where
  "Columns_name n =
     (if n = 0 then Some ''Id''
      else if n = 1 then Some ''Completed''
      else if n = 2 then Some ''Description''
      else if n = 3 then Some ''DueDate''
      else None)"

subsection \<open>HTTP calls and promises\<close>

text \<open>
  Modelled from the spec: the AngularJS declarations (\<^verbatim>\<open>types/angularjs/angular.d.ts\<close>)
  and the browser are not among the sources. Section 6 of the spec gives the HTTP
  contract: a GET of \<^verbatim>\<open>/api/todo\<close> with the filter as query parameters answers a JSON
  array of items, a POST of a JSON-serialized item answers a JSON item, a DELETE of
  \<^verbatim>\<open>/api/todo/{id}\<close> answers empty success or an error status. The callbacks of an
  \<^verbatim>\<open>$http\<close> promise receive a response object; of its fields the model keeps
  \<^verbatim>\<open>data\<close> (the parsed body) and \<^verbatim>\<open>status\<close>.
\<close>

record 'a IHttpPromiseCallbackArg =
  data :: 'a
  status :: int

text \<open>The response object of a failed call: its body is kept as text.\<close>

type_synonym http_error = "string IHttpPromiseCallbackArg"

text \<open>The body of the POST: \<^verbatim>\<open>JSON.stringify(item)\<close>, kept symbolic.\<close>

datatype json = JSON_stringify ITodoItem

text \<open>
  A request as handed to \<^verbatim>\<open>$http\<close>: \<open>HttpGet url params\<close>, \<open>HttpPost url body\<close>,
  and \<open>HttpDelete url n\<close> for the URL \<^verbatim>\<open>url + n\<close> with the number \<open>n\<close> appended.
\<close>

datatype http_request =
    HttpGet string ITodoFilter
  | HttpPost string json
  | HttpDelete string int

text \<open>How a promise settles: \<^verbatim>\<open>defer.resolve(v)\<close> or \<^verbatim>\<open>defer.reject(err)\<close>.\<close>

datatype ('a, 'e) settlement = Resolved 'a | Rejected 'e

subsection \<open>TodoService\<close>

text \<open>
  Each method creates a deferred, sends one request and registers two callbacks on the
  \<^verbatim>\<open>$http\<close> promise that settle the deferred. The model of a method is the request
  it sends (\<open>getItems\<close>) and the map from the settlement of the \<^verbatim>\<open>$http\<close> promise
  to the settlement of the returned promise (\<open>getItems_then\<close>).
\<close>

definition getItems :: "ITodoFilter \<Rightarrow> http_request" where
  "getItems f = HttpGet ''/api/todo'' f"

fun getItems_then ::
  "(ITodoItem list IHttpPromiseCallbackArg, http_error) settlement
     \<Rightarrow> (ITodoItem list, http_error) settlement" where
  "getItems_then (Resolved result) = Resolved (data result)"
| "getItems_then (Rejected err) = Rejected err"

definition updateItem :: "ITodoItem \<Rightarrow> http_request" where
  "updateItem item = HttpPost ''/api/todo'' (JSON_stringify item)"

text \<open>
  \<^verbatim>\<open>updateItem\<close> passes the response object itself to \<^verbatim>\<open>defer.resolve\<close>, not its
  \<^verbatim>\<open>data\<close>: the promise declared \<^verbatim>\<open>ng.IPromise<ITodoItem>\<close> carries a response.
\<close>

fun updateItem_then ::
  "(ITodoItem IHttpPromiseCallbackArg, http_error) settlement
     \<Rightarrow> (ITodoItem IHttpPromiseCallbackArg, http_error) settlement" where
  "updateItem_then (Resolved result) = Resolved result"
| "updateItem_then (Rejected err) = Rejected err"

definition deleteItem :: "ITodoItem \<Rightarrow> http_request" where
  "deleteItem item = HttpDelete ''/api/todo/'' (Id' item)"

fun deleteItem_then ::
  "(unit IHttpPromiseCallbackArg, http_error) settlement \<Rightarrow> (unit, http_error) settlement" where
  "deleteItem_then (Resolved result) = Resolved ()"
| "deleteItem_then (Rejected err) = Rejected err"

text \<open>
  The save operation as section 4.1 of the spec words it: it resolves with the server's
  acknowledgement, the item of the response, and rejects on failure.
\<close>

fun save_spec ::
  "(ITodoItem IHttpPromiseCallbackArg, http_error) settlement
     \<Rightarrow> (ITodoItem, http_error) settlement" where
  "save_spec (Resolved result) = Resolved (data result)"
| "save_spec (Rejected err) = Rejected err"

subsection \<open>The state\<close>

text \<open>The public fields of \<^verbatim>\<open>class TodoController\<close> (\<open>filter'\<close> is its \<^verbatim>\<open>filter\<close>).\<close>

record TodoController =
  filter' :: ITodoFilter
  items :: "ITodoItem list"
  loading :: bool

text \<open>
  The pair of callbacks a controller method registers with \<^verbatim>\<open>.then\<close> on the promise of
  a service call. The callbacks of \<^verbatim>\<open>removeCompleted\<close> are the closure
  \<^verbatim>\<open>checkCount\<close>, which shares the local variable \<^verbatim>\<open>count\<close> of its activation:
  \<open>checkCount_callbacks c\<close> names the address \<open>c\<close> of that variable in the store.
\<close>

datatype callbacks = refresh_callbacks | update_callbacks | checkCount_callbacks nat

text \<open>An HTTP call that was sent: its request, its callbacks, and whether it has settled.\<close>

record http_call =
  request :: http_request
  callbacks :: callbacks
  settled :: bool

text \<open>
  The world: the controller, the store of the \<^verbatim>\<open>count\<close> variables (one per
  activation of \<^verbatim>\<open>removeCompleted\<close>, allocated at \<open>next_count\<close>), every HTTP call
  sent so far in the order of sending (a call is named by its index), and the errors
  shown with \<^verbatim>\<open>alert\<close>.
\<close>

record world =
  ctrl :: TodoController
  count_store :: "nat \<Rightarrow> int"
  next_count :: nat
  calls :: "http_call list"
  alerts :: "http_error list"

definition http_send :: "http_request \<Rightarrow> callbacks \<Rightarrow> world \<Rightarrow> world" where
  "http_send rq cb w =
     w\<lparr>calls := calls w @ [\<lparr>request = rq, callbacks = cb, settled = False\<rparr>]\<rparr>"

definition alert :: "http_error \<Rightarrow> world \<Rightarrow> world" where
  "alert err w = w\<lparr>alerts := alerts w @ [err]\<rparr>"

definition set_loading :: "bool \<Rightarrow> world \<Rightarrow> world" where
  "set_loading b w = w\<lparr>ctrl := (ctrl w)\<lparr>loading := b\<rparr>\<rparr>"

subsection \<open>TodoController\<close>

definition refresh :: "world \<Rightarrow> world" where
  "refresh w =
     (let w1 = set_loading True w
      in http_send (getItems (filter' (ctrl w1))) refresh_callbacks w1)"

fun refresh_then :: "(ITodoItem list, http_error) settlement \<Rightarrow> world \<Rightarrow> world" where
  "refresh_then (Resolved list) w =
     set_loading False (w\<lparr>ctrl := (ctrl w)\<lparr>items := list\<rparr>\<rparr>)"
| "refresh_then (Rejected err) w = set_loading False (alert err w)"

text \<open>
  The constructor: the field initializers (\<^verbatim>\<open>loading = false\<close>, \<^verbatim>\<open>items = []\<close>),
  the filter, then \<^verbatim>\<open>refresh()\<close>, in a world where nothing has been sent yet.
  \<^verbatim>\<open>Columns[Columns.DueDate]\<close> is a string; the \<open>None\<close> branch is never taken.
\<close>

definition TodoController_new :: world where
  "TodoController_new =
     refresh
       \<lparr>ctrl =
          \<lparr>filter' =
             \<lparr>filterText = [],
              columnName =
                (case Columns_name (Columns_value Columns_DueDate) of
                   Some name \<Rightarrow> name
                 | None \<Rightarrow> ''undefined''),
              sortAscending = False\<rparr>,
           items = [],
           loading = False\<rparr>,
        count_store = (\<lambda>c. 0),
        next_count = 0,
        calls = [],
        alerts = []\<rparr>"

text \<open>The setter of \<^verbatim>\<open>filterText\<close>.\<close>

definition set_filterText :: "string \<Rightarrow> world \<Rightarrow> world" where
  "set_filterText v w =
     refresh (w\<lparr>ctrl := (ctrl w)\<lparr>filter' := (filter' (ctrl w))\<lparr>filterText := v\<rparr>\<rparr>\<rparr>)"

text \<open>
  \<^verbatim>\<open>overdue\<close> reads the clock and parses the due date. Both belong to the browser:
  \<open>now\<close> is the time value of \<^verbatim>\<open>new Date()\<close> (milliseconds since the epoch) and
  \<open>Date_parse s\<close> the time value of \<^verbatim>\<open>new Date(s)\<close>, \<open>None\<close> for an invalid date,
  whose time value \<^verbatim>\<open>NaN\<close> makes every comparison false.
\<close>

definition overdue :: "(string \<Rightarrow> int option) \<Rightarrow> int \<Rightarrow> ITodoItem \<Rightarrow> bool" where
  "overdue Date_parse now todoItem =
     (case Date_parse (DueDate todoItem) of
        None \<Rightarrow> False
      | Some due \<Rightarrow> now > due)"

definition update :: "ITodoItem \<Rightarrow> world \<Rightarrow> world" where
  "update todoItem w =
     (let w1 = set_loading True w
      in http_send (updateItem todoItem) update_callbacks w1)"

fun update_then ::
  "(ITodoItem IHttpPromiseCallbackArg, http_error) settlement \<Rightarrow> world \<Rightarrow> world" where
  "update_then (Resolved r) w = set_loading False w"
| "update_then (Rejected err) w = set_loading False (alert err w)"

definition changeColumn :: "string \<Rightarrow> world \<Rightarrow> world" where
  "changeColumn name w =
     (let f = filter' (ctrl w);
          f1 = (if columnName f = name
                then f\<lparr>sortAscending := \<not> sortAscending f\<rparr>
                else f\<lparr>columnName := name\<rparr>)
      in refresh (w\<lparr>ctrl := (ctrl w)\<lparr>filter' := f1\<rparr>\<rparr>))"

text \<open>\<^verbatim>\<open>angular.forEach\<close> over an array runs the body on each element in order.\<close>

definition noCompleted :: "TodoController \<Rightarrow> bool" where
  "noCompleted this =
     (let hasDone = fold (\<lambda>item hasDone. if IsDone item then True else hasDone)
                         (items this) False
      in \<not> hasDone)"

text \<open>\<^verbatim>\<open>checkCount\<close> of the activation whose \<^verbatim>\<open>count\<close> lives at address \<open>c\<close>.\<close>

definition checkCount :: "nat \<Rightarrow> world \<Rightarrow> world" where
  "checkCount c w =
     (let w1 = w\<lparr>count_store := (count_store w)(c := count_store w c - 1)\<rparr>
      in if count_store w1 c = 0 then refresh w1 else w1)"

text \<open>\<^verbatim>\<open>.then(checkCount, checkCount)\<close>: the same closure on success and on failure.\<close>

fun removeCompleted_then :: "nat \<Rightarrow> (unit, http_error) settlement \<Rightarrow> world \<Rightarrow> world" where
  "removeCompleted_then c (Resolved u) w = checkCount c w"
| "removeCompleted_then c (Rejected err) w = checkCount c w"

text \<open>The body of the loop of \<^verbatim>\<open>removeCompleted\<close>, for one item.\<close>

definition removeCompleted_body :: "nat \<Rightarrow> ITodoItem \<Rightarrow> world \<Rightarrow> world" where
  "removeCompleted_body c item w =
     (if IsDone item
      then http_send (deleteItem item) (checkCount_callbacks c)
             (w\<lparr>count_store := (count_store w)(c := count_store w c + 1)\<rparr>)
      else w)"

text \<open>
  \<^verbatim>\<open>removeCompleted\<close>; \<open>confirmed\<close> is the answer of the user to
  \<^verbatim>\<open>confirm("Are you sure?")\<close>. A fresh \<^verbatim>\<open>count\<close> is allocated at \<open>next_count\<close>.
\<close>

definition removeCompleted :: "bool \<Rightarrow> world \<Rightarrow> world" where
  "removeCompleted confirmed w =
     (if \<not> confirmed then w
      else
        let c = next_count w;
            w1 = w\<lparr>count_store := (count_store w)(c := 0), next_count := Suc c\<rparr>;
            w2 = set_loading True w1
        in fold (removeCompleted_body c) (items (ctrl w2)) w2)"

subsection \<open>The event loop\<close>

text \<open>
  What the server answers to a call, as the settlement of the \<^verbatim>\<open>$http\<close> promise,
  typed by the kind of the call (section 6 of the spec).
\<close>

datatype http_reply =
    GetReply "(ITodoItem list IHttpPromiseCallbackArg, http_error) settlement"
  | PostReply "(ITodoItem IHttpPromiseCallbackArg, http_error) settlement"
  | DeleteReply "(unit IHttpPromiseCallbackArg, http_error) settlement"

text \<open>
  The events: the four user actions bound to the controller, and the settlement of the
  call of index \<open>k\<close>.
\<close>

datatype event =
    SetFilterText string
  | ChangeColumn string
  | Update ITodoItem
  | RemoveCompleted bool
  | HttpSettled nat http_reply

definition mark_settled :: "nat \<Rightarrow> world \<Rightarrow> world" where
  "mark_settled k w = w\<lparr>calls := (calls w)[k := (calls w ! k)\<lparr>settled := True\<rparr>]\<rparr>"

text \<open>
  The service callback settles the returned promise, whose callbacks the controller
  registered. A reply of another kind than the call is no event of the program.
\<close>

fun dispatch :: "callbacks \<Rightarrow> http_reply \<Rightarrow> world \<Rightarrow> world option" where
  "dispatch refresh_callbacks (GetReply r) w = Some (refresh_then (getItems_then r) w)"
| "dispatch update_callbacks (PostReply r) w = Some (update_then (updateItem_then r) w)"
| "dispatch (checkCount_callbacks c) (DeleteReply r) w =
     Some (removeCompleted_then c (deleteItem_then r) w)"
| "dispatch cb reply w = None"

text \<open>A promise settles once: a call that has settled, or was never sent, ignores the event.\<close>

definition settle :: "nat \<Rightarrow> http_reply \<Rightarrow> world \<Rightarrow> world" where
  "settle k reply w =
     (if k < length (calls w) \<and> \<not> settled (calls w ! k)
      then (case dispatch (callbacks (calls w ! k)) reply (mark_settled k w) of
              Some w' \<Rightarrow> w'
            | None \<Rightarrow> w)
      else w)"

fun step :: "event \<Rightarrow> world \<Rightarrow> world" where
  "step (SetFilterText v) w = set_filterText v w"
| "step (ChangeColumn name) w = changeColumn name w"
| "step (Update item) w = update item w"
| "step (RemoveCompleted confirmed) w = removeCompleted confirmed w"
| "step (HttpSettled k reply) w = settle k reply w"

fun run :: "event list \<Rightarrow> world \<Rightarrow> world" where
  "run [] w = w"
| "run (e # es) w = run es (step e w)"

section \<open>Observing a run\<close>

text \<open>
  The calls that \<^verbatim>\<open>removeCompleted\<close> and \<^verbatim>\<open>refresh\<close> send, and the calls sent
  during a transition: \<open>calls\<close> only grows at its end, so the calls sent between \<open>w\<close>
  and a later \<open>w'\<close> are those beyond the length of \<open>calls w\<close>. Only \<^verbatim>\<open>refresh\<close>
  sends a call with \<open>refresh_callbacks\<close>, one per activation, so \<open>refreshes w w'\<close>
  counts the activations of \<^verbatim>\<open>refresh\<close> between \<open>w\<close> and \<open>w'\<close>.
\<close>

definition delete_call :: "nat \<Rightarrow> ITodoItem \<Rightarrow> http_call" where
  "delete_call c item =
     \<lparr>request = deleteItem item, callbacks = checkCount_callbacks c, settled = False\<rparr>"

definition refresh_call :: "ITodoFilter \<Rightarrow> http_call" where
  "refresh_call f = \<lparr>request = getItems f, callbacks = refresh_callbacks, settled = False\<rparr>"

definition sent_by :: "world \<Rightarrow> world \<Rightarrow> http_call list" where
  "sent_by w w' = drop (length (calls w)) (calls w')"

definition refreshes :: "world \<Rightarrow> world \<Rightarrow> nat" where
  "refreshes w w' = length (filter (\<lambda>cl. callbacks cl = refresh_callbacks) (sent_by w w'))"

text \<open>
  \<open>refreshes_by D es w\<close>: how often \<^verbatim>\<open>refresh\<close> is activated, in the run of the
  events \<open>es\<close> from \<open>w\<close>, by a step that settles a call whose index is in \<open>D\<close>.
\<close>

fun settles :: "nat set \<Rightarrow> event \<Rightarrow> bool" where
  "settles D (HttpSettled k reply) = (k \<in> D)"
| "settles D e = False"

fun refreshes_by :: "nat set \<Rightarrow> event list \<Rightarrow> world \<Rightarrow> nat" where
  "refreshes_by D [] w = 0"
| "refreshes_by D (e # es) w =
     (if settles D e then refreshes w (step e w) else 0) + refreshes_by D es (step e w)"

fun is_settlement :: "event \<Rightarrow> bool" where
  "is_settlement (HttpSettled k reply) = True"
| "is_settlement e = False"

text \<open>
  An invariant of every world the program reaches: a \<^verbatim>\<open>checkCount\<close> closure refers
  to a \<^verbatim>\<open>count\<close> that was allocated.
\<close>

definition wf_world :: "world \<Rightarrow> bool" where
  "wf_world w \<longleftrightarrow>
     (\<forall>j < length (calls w). \<forall>c. callbacks (calls w ! j) = checkCount_callbacks c
        \<longrightarrow> c < next_count w)"

section \<open>Scenarios\<close>

text \<open>
  Concrete worlds and replies for the examples: \<open>loaded xs\<close> is the world after the
  constructor's list request was answered with the items \<open>xs\<close>; \<open>one_open\<close> is the
  answer of the scenario of section 8 of the spec, \<open>three_done\<close> a collection with
  three done items.
\<close>

definition loaded :: "ITodoItem list \<Rightarrow> world" where
  "loaded xs =
     step (HttpSettled 0 (GetReply (Resolved \<lparr>data = xs, status = 200\<rparr>))) TodoController_new"

definition three_done :: "ITodoItem list" where
  "three_done =
     [\<lparr>Id' = 1, IsDone = True, Description = ''a'', DueDate = ''2020-01-01''\<rparr>,
      \<lparr>Id' = 2, IsDone = False, Description = ''b'', DueDate = ''2020-01-02''\<rparr>,
      \<lparr>Id' = 3, IsDone = True, Description = ''c'', DueDate = ''2020-01-03''\<rparr>,
      \<lparr>Id' = 4, IsDone = True, Description = ''d'', DueDate = ''2020-01-04''\<rparr>]"

definition one_open :: "ITodoItem list" where
  "one_open = [\<lparr>Id' = 1, IsDone = False, Description = ''a'', DueDate = ''2020-01-01''\<rparr>]"

definition server_error :: http_error where
  "server_error = \<lparr>data = ''Internal Server Error'', status = 500\<rparr>"

definition deleted :: http_reply where
  "deleted = DeleteReply (Resolved \<lparr>data = (), status = 204\<rparr>)"

definition delete_failed :: http_reply where
  "delete_failed = DeleteReply (Rejected server_error)"

section \<open>Auxiliary facts\<close>

subsection \<open>The methods as record updates\<close>

lemma Columns_name_value: "\<exists>name. Columns_name (Columns_value c) = Some name"
  by (cases c) (simp_all add: Columns_name_def)

lemma refresh_eq:
  "refresh w = w\<lparr>ctrl := (ctrl w)\<lparr>loading := True\<rparr>,
                 calls := calls w @ [refresh_call (filter' (ctrl w))]\<rparr>"
  by (simp add: refresh_def set_loading_def http_send_def refresh_call_def Let_def)

lemma fold_removeCompleted_body:
  "fold (removeCompleted_body c) xs v =
     v\<lparr>count_store := (count_store v)(c := count_store v c + int (length (filter IsDone xs))),
       calls := calls v @ map (delete_call c) (filter IsDone xs)\<rparr>"
proof (induction xs arbitrary: v)
  case Nil
  show ?case by simp
next
  case (Cons x xs)
  have "fold (removeCompleted_body c) (x # xs) v
          = fold (removeCompleted_body c) xs (removeCompleted_body c x v)"
    by simp
  also have "\<dots> = (removeCompleted_body c x v)
      \<lparr>count_store := (count_store (removeCompleted_body c x v))
          (c := count_store (removeCompleted_body c x v) c + int (length (filter IsDone xs))),
       calls := calls (removeCompleted_body c x v) @ map (delete_call c) (filter IsDone xs)\<rparr>"
    by (rule Cons.IH)
  also have "\<dots> = v\<lparr>count_store := (count_store v)
          (c := count_store v c + int (length (filter IsDone (x # xs)))),
       calls := calls v @ map (delete_call c) (filter IsDone (x # xs))\<rparr>"
    by (simp add: removeCompleted_body_def http_send_def delete_call_def add.assoc)
  finally show ?case .
qed

lemma removeCompleted_confirmed_eq:
  "removeCompleted True w =
     w\<lparr>ctrl := (ctrl w)\<lparr>loading := True\<rparr>,
       count_store := (count_store w)(next_count w := int (length (filter IsDone (items (ctrl w))))),
       next_count := Suc (next_count w),
       calls := calls w @ map (delete_call (next_count w)) (filter IsDone (items (ctrl w)))\<rparr>"
  by (simp add: removeCompleted_def Let_def set_loading_def fold_removeCompleted_body)

lemma removeCompleted_unconfirmed_eq: "removeCompleted False w = w"
  by (simp add: removeCompleted_def)

subsection \<open>Settling a call\<close>

text \<open>A reply is accepted by a call of its kind; an event is effective when it changes the world.\<close>

fun accepts :: "callbacks \<Rightarrow> http_reply \<Rightarrow> bool" where
  "accepts refresh_callbacks (GetReply r) = True"
| "accepts update_callbacks (PostReply r) = True"
| "accepts (checkCount_callbacks c) (DeleteReply r) = True"
| "accepts cb reply = False"

definition effective :: "nat \<Rightarrow> http_reply \<Rightarrow> world \<Rightarrow> bool" where
  "effective k reply v \<longleftrightarrow>
     k < length (calls v) \<and> \<not> settled (calls v ! k) \<and> accepts (callbacks (calls v ! k)) reply"

lemma dispatch_None: "dispatch cb reply v = None \<longleftrightarrow> \<not> accepts cb reply"
  by (cases "(cb, reply, v)" rule: dispatch.cases) simp_all

lemma settle_ignored:
  assumes "\<not> effective k reply v"
  shows "settle k reply v = v"
proof (cases "k < length (calls v) \<and> \<not> settled (calls v ! k)")
  case True
  with assms have "\<not> accepts (callbacks (calls v ! k)) reply"
    by (simp add: effective_def)
  then have "dispatch (callbacks (calls v ! k)) reply (mark_settled k v) = None"
    by (simp add: dispatch_None)
  then show ?thesis
    by (simp add: settle_def)
next
  case False
  then show ?thesis
    by (auto simp: settle_def)
qed

lemma checkCount_eq:
  "checkCount c v =
     (if count_store v c = 1
      then v\<lparr>ctrl := (ctrl v)\<lparr>loading := True\<rparr>,
             count_store := (count_store v)(c := 0),
             calls := calls v @ [refresh_call (filter' (ctrl v))]\<rparr>
      else v\<lparr>count_store := (count_store v)(c := count_store v c - 1)\<rparr>)"
  by (simp add: checkCount_def Let_def refresh_eq)

lemma settle_refresh_callbacks:
  assumes "effective k reply v" and "callbacks (calls v ! k) = refresh_callbacks"
  obtains r where "reply = GetReply r"
    and "settle k reply v = refresh_then (getItems_then r) (mark_settled k v)"
  using assms
  by (cases reply) (auto simp: effective_def settle_def)

lemma settle_update_callbacks:
  assumes "effective k reply v" and "callbacks (calls v ! k) = update_callbacks"
  obtains r where "reply = PostReply r"
    and "settle k reply v = update_then (updateItem_then r) (mark_settled k v)"
  using assms
  by (cases reply) (auto simp: effective_def settle_def)

lemma settle_checkCount_callbacks:
  assumes "effective k reply v" and "callbacks (calls v ! k) = checkCount_callbacks c"
  shows "settle k reply v = checkCount c (mark_settled k v)"
proof -
  from assms obtain r where "reply = DeleteReply r"
    by (cases reply) (auto simp: effective_def)
  with assms show ?thesis
    by (cases "deleteItem_then r") (auto simp: effective_def settle_def)
qed

lemma refresh_then_frame:
  "calls (refresh_then s v) = calls v"
  "count_store (refresh_then s v) = count_store v"
  "next_count (refresh_then s v) = next_count v"
  by (cases s; simp add: set_loading_def alert_def)+

lemma update_then_frame:
  "calls (update_then s v) = calls v"
  "count_store (update_then s v) = count_store v"
  "next_count (update_then s v) = next_count v"
  by (cases s; simp add: set_loading_def alert_def)+

subsection \<open>Steps that leave one activation of removeCompleted alone\<close>

definition frame :: "nat \<Rightarrow> world \<Rightarrow> world \<Rightarrow> bool" where
  "frame c v v' \<longleftrightarrow>
     next_count v \<le> next_count v'
   \<and> count_store v' c = count_store v c
   \<and> length (calls v) \<le> length (calls v')
   \<and> (\<forall>j < length (calls v).
         callbacks (calls v' ! j) = callbacks (calls v ! j)
       \<and> (callbacks (calls v ! j) = checkCount_callbacks c
            \<longrightarrow> settled (calls v' ! j) = settled (calls v ! j)))
   \<and> (\<forall>j. length (calls v) \<le> j \<and> j < length (calls v')
         \<longrightarrow> callbacks (calls v' ! j) \<noteq> checkCount_callbacks c)"

lemma frame_refl: "frame c v v"
  by (auto simp: frame_def)

lemma settle_frame:
  assumes c: "c < next_count v"
    and other: "effective k reply v \<Longrightarrow> callbacks (calls v ! k) \<noteq> checkCount_callbacks c"
  shows "frame c v (settle k reply v)"
proof (cases "effective k reply v")
  case False
  then show ?thesis
    by (simp add: settle_ignored frame_refl)
next
  case True
  then have k: "k < length (calls v)"
    by (simp add: effective_def)
  show ?thesis
  proof (cases "callbacks (calls v ! k)")
    case refresh_callbacks
    with True obtain r where "settle k reply v = refresh_then (getItems_then r) (mark_settled k v)"
      by (rule settle_refresh_callbacks)
    with k refresh_callbacks show ?thesis
      by (auto simp: frame_def refresh_then_frame mark_settled_def nth_list_update)
  next
    case update_callbacks
    with True obtain r where "settle k reply v = update_then (updateItem_then r) (mark_settled k v)"
      by (rule settle_update_callbacks)
    with k update_callbacks show ?thesis
      by (auto simp: frame_def update_then_frame mark_settled_def nth_list_update)
  next
    case (checkCount_callbacks c')
    with True have eq: "settle k reply v = checkCount c' (mark_settled k v)"
      by (rule settle_checkCount_callbacks)
    from other True checkCount_callbacks have "c' \<noteq> c"
      by simp
    with k checkCount_callbacks show ?thesis
      by (auto simp: eq frame_def checkCount_eq mark_settled_def nth_list_update nth_append
            refresh_call_def)
  qed
qed

lemma step_frame:
  assumes c: "c < next_count v"
    and other: "\<And>k reply. e = HttpSettled k reply \<Longrightarrow> effective k reply v
                  \<Longrightarrow> callbacks (calls v ! k) \<noteq> checkCount_callbacks c"
  shows "frame c v (step e v)"
proof (cases e)
  case (SetFilterText x)
  then show ?thesis
    by (simp add: set_filterText_def frame_def refresh_eq refresh_call_def nth_append)
next
  case (ChangeColumn x)
  then show ?thesis
    by (simp add: changeColumn_def frame_def refresh_eq refresh_call_def nth_append Let_def)
next
  case (Update x)
  then show ?thesis
    by (simp add: update_def frame_def set_loading_def http_send_def nth_append Let_def)
next
  case (RemoveCompleted confirmed)
  with c show ?thesis
    by (cases confirmed)
      (auto simp: removeCompleted_confirmed_eq removeCompleted_unconfirmed_eq frame_def nth_append
        delete_call_def)
next
  case (HttpSettled k reply)
  with c other show ?thesis
    by (simp add: settle_frame)
qed

subsection \<open>The fan-in invariant\<close>

text \<open>
  For the activation of \<^verbatim>\<open>removeCompleted\<close> whose \<^verbatim>\<open>count\<close> is at \<open>c\<close> and whose
  delete calls have the indices \<open>D\<close>: \<^verbatim>\<open>count\<close> is the number of those calls that
  have not settled.
\<close>

definition pending :: "nat set \<Rightarrow> world \<Rightarrow> nat set" where
  "pending D v = {k \<in> D. \<not> settled (calls v ! k)}"

definition batch_inv :: "nat \<Rightarrow> nat set \<Rightarrow> world \<Rightarrow> bool" where
  "batch_inv c D v \<longleftrightarrow>
     c < next_count v
   \<and> finite D
   \<and> (\<forall>k \<in> D. k < length (calls v))
   \<and> (\<forall>k < length (calls v). (callbacks (calls v ! k) = checkCount_callbacks c) = (k \<in> D))
   \<and> count_store v c = int (card (pending D v))"

lemma frame_pending:
  assumes "frame c v v'" and "batch_inv c D v"
  shows "pending D v' = pending D v"
  using assms by (auto simp: frame_def batch_inv_def pending_def)

lemma frame_batch_inv:
  assumes f: "frame c v v'" and inv: "batch_inv c D v"
  shows "batch_inv c D v'"
proof -
  have p: "pending D v' = pending D v"
    using f inv by (rule frame_pending)
  have "\<forall>k < length (calls v'). (callbacks (calls v' ! k) = checkCount_callbacks c) = (k \<in> D)"
  proof (intro allI impI)
    fix k assume k: "k < length (calls v')"
    show "(callbacks (calls v' ! k) = checkCount_callbacks c) = (k \<in> D)"
    proof (cases "k < length (calls v)")
      case True
      with f inv show ?thesis
        by (simp add: frame_def batch_inv_def)
    next
      case False
      with k f have "callbacks (calls v' ! k) \<noteq> checkCount_callbacks c"
        by (simp add: frame_def)
      moreover from False inv have "k \<notin> D"
        by (auto simp: batch_inv_def)
      ultimately show ?thesis
        by simp
    qed
  qed
  with f inv p show ?thesis
    by (auto simp: frame_def batch_inv_def)
qed

lemma refreshes_same: "refreshes v v = 0"
  by (simp add: refreshes_def sent_by_def)

lemma batch_settle:
  assumes inv: "batch_inv c D v" and kD: "k \<in> D" and eff: "effective k reply v"
  shows "batch_inv c D (settle k reply v)"
    and "pending D (settle k reply v) = pending D v - {k}"
    and "k \<in> pending D v"
    and "refreshes v (settle k reply v) = (if pending D v = {k} then 1 else 0)"
proof -
  from inv kD have k: "k < length (calls v)" and cb: "callbacks (calls v ! k) = checkCount_callbacks c"
    by (simp_all add: batch_inv_def)
  from eff have ns: "\<not> settled (calls v ! k)"
    by (simp add: effective_def)
  with kD show kp: "k \<in> pending D v"
    by (simp add: pending_def)
  have fin: "finite (pending D v)"
    using inv by (simp add: batch_inv_def pending_def)
  from kp fin have pos: "0 < card (pending D v)"
    by (auto simp: card_gt_0_iff)
  have one: "(card (pending D v) = 1) = (pending D v = {k})"
    using kp fin by (auto simp: card_Suc_eq)
  have eq: "settle k reply v = checkCount c (mark_settled k v)"
    using eff cb by (rule settle_checkCount_callbacks)
  have cnt: "count_store v c = int (card (pending D v))"
    using inv by (simp add: batch_inv_def)
  have calls: "calls (settle k reply v) =
      (calls v)[k := (calls v ! k)\<lparr>settled := True\<rparr>]
        @ (if pending D v = {k} then [refresh_call (filter' (ctrl v))] else [])"
    using one by (simp add: eq checkCount_eq cnt mark_settled_def)
  show pend: "pending D (settle k reply v) = pending D v - {k}"
    using inv k by (auto simp: pending_def calls batch_inv_def nth_append nth_list_update)
  show "refreshes v (settle k reply v) = (if pending D v = {k} then 1 else 0)"
    by (simp add: refreshes_def sent_by_def calls refresh_call_def)
  have cs: "count_store (settle k reply v) c = int (card (pending D v)) - 1"
    by (simp add: eq checkCount_eq cnt mark_settled_def)
  have "card (pending D v - {k}) = card (pending D v) - 1"
    using kp fin by simp
  with pos have "count_store (settle k reply v) c = int (card (pending D (settle k reply v)))"
    by (simp add: cs pend)
  moreover have "next_count (settle k reply v) = next_count v"
    by (simp add: eq checkCount_eq mark_settled_def)
  moreover have "\<forall>j < length (calls (settle k reply v)).
      (callbacks (calls (settle k reply v) ! j) = checkCount_callbacks c) = (j \<in> D)"
    using inv k cb
    by (auto simp: calls batch_inv_def nth_append nth_list_update refresh_call_def
          split: if_splits)
  moreover have "\<forall>j \<in> D. j < length (calls (settle k reply v))"
    using inv by (auto simp: calls batch_inv_def)
  ultimately show "batch_inv c D (settle k reply v)"
    using inv by (simp add: batch_inv_def)
qed

lemma other_event_frame:
  assumes inv: "batch_inv c D v"
    and other: "\<not> (\<exists>k reply. e = HttpSettled k reply \<and> k \<in> D \<and> effective k reply v)"
  shows "frame c v (step e v)"
proof (rule step_frame)
  show "c < next_count v"
    using inv by (simp add: batch_inv_def)
next
  fix k reply
  assume "e = HttpSettled k reply" and eff: "effective k reply v"
  with other have "k \<notin> D"
    by blast
  moreover from eff have "k < length (calls v)"
    by (simp add: effective_def)
  ultimately show "callbacks (calls v ! k) \<noteq> checkCount_callbacks c"
    using inv by (simp add: batch_inv_def)
qed

lemma batch_step:
  assumes inv: "batch_inv c D v"
  shows "batch_inv c D (step e v) \<and> pending D (step e v) \<subseteq> pending D v"
proof (cases "\<exists>k reply. e = HttpSettled k reply \<and> k \<in> D \<and> effective k reply v")
  case True
  then obtain k reply where e: "e = HttpSettled k reply" and kD: "k \<in> D"
    and eff: "effective k reply v"
    by blast
  from batch_settle(1,2) [OF inv kD eff] e show ?thesis
    by auto
next
  case False
  with inv have "frame c v (step e v)"
    by (rule other_event_frame)
  with inv show ?thesis
    by (simp add: frame_batch_inv frame_pending)
qed

lemma pending_run:
  assumes "batch_inv c D v"
  shows "pending D (run es v) \<subseteq> pending D v"
  using assms
proof (induction es arbitrary: v)
  case Nil
  show ?case by simp
next
  case (Cons e es)
  from Cons.prems have "batch_inv c D (step e v)" and "pending D (step e v) \<subseteq> pending D v"
    using batch_step by blast+
  moreover from this(1) have "pending D (run es (step e v)) \<subseteq> pending D (step e v)"
    by (rule Cons.IH)
  ultimately show ?case
    by auto
qed

lemma refreshes_by_batch:
  assumes "batch_inv c D v"
  shows "refreshes_by D es v
           = (if pending D v \<noteq> {} \<and> pending D (run es v) = {} then 1 else 0)"
  using assms
proof (induction es arbitrary: v)
  case Nil
  show ?case by simp
next
  case (Cons e es)
  note inv = Cons.prems
  have inv': "batch_inv c D (step e v)"
    using inv batch_step by blast
  have IH: "refreshes_by D es (step e v)
            = (if pending D (step e v) \<noteq> {} \<and> pending D (run es (step e v)) = {} then 1 else 0)"
    using inv' by (rule Cons.IH)
  have mono: "pending D (run es (step e v)) \<subseteq> pending D (step e v)"
    using inv' by (rule pending_run)
  show ?case
  proof (cases "\<exists>k reply. e = HttpSettled k reply \<and> k \<in> D \<and> effective k reply v")
    case True
    then obtain k reply where e: "e = HttpSettled k reply" and kD: "k \<in> D"
      and eff: "effective k reply v"
      by blast
    note b = batch_settle [OF inv kD eff]
    show ?thesis
    proof (cases "pending D v = {k}")
      case True
      with b(2) have "pending D (step e v) = {}"
        by (simp add: e)
      with mono IH True b(4) e kD show ?thesis
        by simp
    next
      case False
      with b(2,3) have "pending D (step e v) \<noteq> {}"
        by (auto simp: e)
      with IH False b(3,4) e kD show ?thesis
        by auto
    qed
  next
    case False
    with inv have fr: "frame c v (step e v)"
      by (rule other_event_frame)
    have p: "pending D (step e v) = pending D v"
      using fr inv by (rule frame_pending)
    have zero: "(if settles D e then refreshes v (step e v) else 0) = 0"
    proof (cases e)
      case (HttpSettled k reply)
      with False have "k \<in> D \<Longrightarrow> \<not> effective k reply v"
        by blast
      with HttpSettled show ?thesis
        by (auto simp: settle_ignored refreshes_same)
    qed simp_all
    from IH zero p show ?thesis
      by simp
  qed
qed

lemma removeCompleted_batch_inv:
  assumes wf: "wf_world w"
  defines "n \<equiv> length (filter IsDone (items (ctrl w)))"
  defines "D \<equiv> {length (calls w) ..< length (calls w) + n}"
  shows "batch_inv (next_count w) D (removeCompleted True w)"
    and "pending D (removeCompleted True w) = D"
proof -
  let ?w1 = "removeCompleted True w"
  let ?c = "next_count w"
  have calls1: "calls ?w1 = calls w @ map (delete_call ?c) (filter IsDone (items (ctrl w)))"
    by (simp add: removeCompleted_confirmed_eq)
  have new: "callbacks (calls ?w1 ! k) = checkCount_callbacks ?c \<and> \<not> settled (calls ?w1 ! k)"
    if "k \<in> D" for k
  proof -
    from that have "length (calls w) \<le> k"
      and "k - length (calls w) < length (filter IsDone (items (ctrl w)))"
      by (auto simp: D_def n_def)
    then show ?thesis
      by (simp add: calls1 nth_append delete_call_def)
  qed
  have old: "callbacks (calls ?w1 ! k) \<noteq> checkCount_callbacks ?c"
    if "k < length (calls w)" for k
    using that wf by (auto simp: calls1 nth_append wf_world_def)
  show p: "pending D ?w1 = D"
    using new by (auto simp: pending_def)
  have "(callbacks (calls ?w1 ! k) = checkCount_callbacks ?c) = (k \<in> D)"
    if "k < length (calls ?w1)" for k
  proof (cases "k < length (calls w)")
    case True
    then show ?thesis
      using old by (simp add: D_def)
  next
    case False
    with that have "k \<in> D"
      by (simp add: calls1 D_def n_def)
    then show ?thesis
      using new by simp
  qed
  moreover have "count_store ?w1 ?c = int (card (pending D ?w1))"
    by (simp add: p) (simp add: D_def n_def removeCompleted_confirmed_eq)
  moreover have "\<forall>k \<in> D. k < length (calls ?w1)"
    by (simp add: calls1 D_def n_def)
  moreover have "?c < next_count ?w1"
    by (simp add: removeCompleted_confirmed_eq)
  ultimately show "batch_inv ?c D ?w1"
    by (simp add: batch_inv_def D_def)
qed

subsection \<open>Calls are never removed or changed, only settled\<close>

definition grows :: "world \<Rightarrow> world \<Rightarrow> bool" where
  "grows v v' \<longleftrightarrow>
     next_count v \<le> next_count v'
   \<and> length (calls v) \<le> length (calls v')
   \<and> (\<forall>j < length (calls v).
         callbacks (calls v' ! j) = callbacks (calls v ! j)
       \<and> request (calls v' ! j) = request (calls v ! j)
       \<and> (settled (calls v ! j) \<longrightarrow> settled (calls v' ! j)))
   \<and> (\<forall>j c. length (calls v) \<le> j \<and> j < length (calls v')
         \<and> callbacks (calls v' ! j) = checkCount_callbacks c \<longrightarrow> c < next_count v')"

lemma settle_grows: "grows v (settle k reply v)"
proof (cases "effective k reply v")
  case False
  then show ?thesis
    by (auto simp: settle_ignored grows_def)
next
  case True
  then have k: "k < length (calls v)"
    by (simp add: effective_def)
  show ?thesis
  proof (cases "callbacks (calls v ! k)")
    case refresh_callbacks
    with True obtain r where "settle k reply v = refresh_then (getItems_then r) (mark_settled k v)"
      by (rule settle_refresh_callbacks)
    with k show ?thesis
      by (auto simp: grows_def refresh_then_frame mark_settled_def nth_list_update)
  next
    case update_callbacks
    with True obtain r where "settle k reply v = update_then (updateItem_then r) (mark_settled k v)"
      by (rule settle_update_callbacks)
    with k show ?thesis
      by (auto simp: grows_def update_then_frame mark_settled_def nth_list_update)
  next
    case (checkCount_callbacks c')
    with True have eq: "settle k reply v = checkCount c' (mark_settled k v)"
      by (rule settle_checkCount_callbacks)
    with k show ?thesis
      by (auto simp: eq grows_def checkCount_eq mark_settled_def nth_list_update nth_append
            refresh_call_def)
  qed
qed

lemma step_grows: "grows v (step e v)"
proof (cases e)
  case (SetFilterText x)
  then show ?thesis
    by (auto simp: set_filterText_def grows_def refresh_eq refresh_call_def nth_append)
next
  case (ChangeColumn x)
  then show ?thesis
    by (auto simp: changeColumn_def grows_def refresh_eq refresh_call_def nth_append Let_def)
next
  case (Update x)
  then show ?thesis
    by (auto simp: update_def grows_def set_loading_def http_send_def nth_append Let_def)
next
  case (RemoveCompleted confirmed)
  then show ?thesis
    by (cases confirmed)
      (auto simp: removeCompleted_confirmed_eq removeCompleted_unconfirmed_eq grows_def nth_append
        delete_call_def)
next
  case (HttpSettled k reply)
  then show ?thesis
    by (simp add: settle_grows)
qed

lemma grows_wf:
  assumes "grows v v'" and "wf_world v"
  shows "wf_world v'"
  unfolding wf_world_def
proof (intro allI impI)
  fix j c
  assume j: "j < length (calls v')" and cb: "callbacks (calls v' ! j) = checkCount_callbacks c"
  show "c < next_count v'"
  proof (cases "j < length (calls v)")
    case True
    with assms cb have "c < next_count v"
      by (simp add: grows_def wf_world_def)
    with assms(1) show ?thesis
      by (simp add: grows_def)
  next
    case False
    then have "length (calls v) \<le> j"
      by simp
    moreover from assms(1) have "\<forall>j c. length (calls v) \<le> j \<and> j < length (calls v')
         \<and> callbacks (calls v' ! j) = checkCount_callbacks c \<longrightarrow> c < next_count v'"
      by (simp add: grows_def)
    ultimately show ?thesis
      using j cb by blast
  qed
qed

lemma step_wf_world: "wf_world v \<Longrightarrow> wf_world (step e v)"
  using step_grows by (rule grows_wf)

lemma run_wf_world: "wf_world v \<Longrightarrow> wf_world (run es v)"
  by (induction es arbitrary: v) (simp_all add: step_wf_world)

lemma TodoController_new_wf: "wf_world TodoController_new"
  by (simp add: wf_world_def TodoController_new_def refresh_eq refresh_call_def)

lemma reachable_wf_world: "wf_world (run es TodoController_new)"
  using TodoController_new_wf by (rule run_wf_world)

lemma grows_trans:
  assumes uv: "grows u v" and vw: "grows v w"
  shows "grows u w"
proof -
  have len: "length (calls u) \<le> length (calls v)" "length (calls v) \<le> length (calls w)"
    using uv vw by (simp_all add: grows_def)
  have old: "callbacks (calls w ! j) = callbacks (calls u ! j)
       \<and> request (calls w ! j) = request (calls u ! j)
       \<and> (settled (calls u ! j) \<longrightarrow> settled (calls w ! j))"
    if "j < length (calls u)" for j
  proof -
    from that len have "j < length (calls v)"
      by simp
    with that uv vw show ?thesis
      by (simp add: grows_def)
  qed
  have new: "c < next_count w"
    if "length (calls u) \<le> j" "j < length (calls w)"
      "callbacks (calls w ! j) = checkCount_callbacks c" for j c
  proof (cases "j < length (calls v)")
    case True
    with vw that have "callbacks (calls v ! j) = checkCount_callbacks c"
      by (simp add: grows_def)
    moreover from uv have "\<forall>j c. length (calls u) \<le> j \<and> j < length (calls v)
         \<and> callbacks (calls v ! j) = checkCount_callbacks c \<longrightarrow> c < next_count v"
      by (simp add: grows_def)
    ultimately have "c < next_count v"
      using that(1) True by blast
    with vw show ?thesis
      by (simp add: grows_def)
  next
    case False
    then have "length (calls v) \<le> j"
      by simp
    moreover from vw have "\<forall>j c. length (calls v) \<le> j \<and> j < length (calls w)
         \<and> callbacks (calls w ! j) = checkCount_callbacks c \<longrightarrow> c < next_count w"
      by (simp add: grows_def)
    ultimately show ?thesis
      using that(2,3) by blast
  qed
  from uv vw have "next_count u \<le> next_count w"
    by (simp add: grows_def)
  with len old new show ?thesis
    unfolding grows_def by (intro conjI allI impI) auto
qed

lemma run_grows: "grows v (run es v)"
proof (induction es arbitrary: v)
  case Nil
  show ?case by (auto simp: grows_def)
next
  case (Cons e es)
  have "grows v (step e v)"
    by (rule step_grows)
  moreover have "grows (step e v) (run es (step e v))"
    by (rule Cons.IH)
  ultimately show ?case
    by (simp add: grows_trans)
qed

lemma run_old_call:
  assumes "k < length (calls w)"
  shows "k < length (calls (run es w))"
    and "callbacks (calls (run es w) ! k) = callbacks (calls w ! k)"
    and "request (calls (run es w) ! k) = request (calls w ! k)"
  using run_grows [of w es] assms by (simp_all add: grows_def)

lemma settle_refresh_call:
  assumes "k < length (calls v)" and "\<not> settled (calls v ! k)"
    and "callbacks (calls v ! k) = refresh_callbacks"
  shows "settle k (GetReply r) v = refresh_then (getItems_then r) (mark_settled k v)"
  using assms by (simp add: settle_def)

lemma settle_update_call:
  assumes "k < length (calls v)" and "\<not> settled (calls v ! k)"
    and "callbacks (calls v ! k) = update_callbacks"
  shows "settle k (PostReply r) v = update_then (updateItem_then r) (mark_settled k v)"
  using assms by (simp add: settle_def)

lemma settled_world_stuck:
  assumes "\<forall>cl \<in> set (calls v). settled cl" and "\<forall>e \<in> set es. is_settlement e"
  shows "run es v = v"
  using assms
proof (induction es)
  case Nil
  show ?case by simp
next
  case (Cons e es)
  from Cons.prems(2) obtain k reply where e: "e = HttpSettled k reply"
    by (cases e) simp_all
  from Cons.prems(1) have "\<not> effective k reply v"
    by (auto simp: effective_def)
  then have "step e v = v"
    by (simp add: e settle_ignored)
  with Cons show ?case
    by simp
qed

lemma fold_hasDone:
  "fold (\<lambda>item hasDone. if IsDone item then True else hasDone) xs b
     = (b \<or> (\<exists>item \<in> set xs. IsDone item))"
  by (induction xs arbitrary: b) auto

subsection \<open>The scenario worlds\<close>

lemma loaded_eq:
  "loaded xs =
     \<lparr>ctrl = \<lparr>filter' = \<lparr>filterText = [], columnName = ''DueDate'', sortAscending = False\<rparr>,
              items = xs, loading = False\<rparr>,
      count_store = (\<lambda>c. 0),
      next_count = 0,
      calls = [\<lparr>request = HttpGet ''/api/todo''
                   \<lparr>filterText = [], columnName = ''DueDate'', sortAscending = False\<rparr>,
                callbacks = refresh_callbacks, settled = True\<rparr>],
      alerts = []\<rparr>"
  by (simp add: loaded_def TodoController_new_def refresh_eq refresh_call_def getItems_def
        Columns_name_def settle_def mark_settled_def set_loading_def)

section \<open>Properties\<close>

text \<open>
  C8. When the user declines the confirmation prompt, \<^verbatim>\<open>removeCompleted\<close> sends no
  call and leaves the whole state as it was: the controller (loading flag, items,
  filter), the calls and the alerts.
\<close>

theorem removeCompleted_declined: "removeCompleted False w = w"
  by (simp add: removeCompleted_def)

text \<open>
  C7. \<^verbatim>\<open>noCompleted()\<close> is true exactly when every item of the collection has
  \<^verbatim>\<open>IsDone\<close> false (so it is false as soon as one item is done).
\<close>

theorem noCompleted_iff:
  "noCompleted this \<longleftrightarrow> (\<forall>item \<in> set (items this). \<not> IsDone item)"
  by (simp add: noCompleted_def fold_hasDone)

theorem noCompleted_iff_witness:
  "noCompleted \<lparr>filter' = \<lparr>filterText = [], columnName = ''DueDate'', sortAscending = False\<rparr>,
      items = [\<lparr>Id' = 1, IsDone = False, Description = ''a'', DueDate = ''2020-01-01''\<rparr>],
      loading = False\<rparr>
   \<and> \<not> noCompleted \<lparr>filter' = \<lparr>filterText = [], columnName = ''DueDate'', sortAscending = False\<rparr>,
      items = [\<lparr>Id' = 1, IsDone = False, Description = ''a'', DueDate = ''2020-01-01''\<rparr>,
               \<lparr>Id' = 2, IsDone = True, Description = ''b'', DueDate = ''2020-01-02''\<rparr>],
      loading = False\<rparr>"
  unfolding noCompleted_iff by simp

text \<open>
  C6. \<^verbatim>\<open>overdue(item)\<close> is true exactly when the due date is a valid date and the
  current time is strictly later; it is false when the current time equals or precedes
  the due date (and when the due date does not parse).
\<close>

theorem overdue_strict:
  "overdue Date_parse now todoItem
     \<longleftrightarrow> (\<exists>due. Date_parse (DueDate todoItem) = Some due \<and> due < now)"
  by (simp add: overdue_def split: option.split)

theorem overdue_strict_witness:
  "overdue (\<lambda>s. if s = ''2020-01-01'' then Some 1577836800000 else None) 1577836800001
     \<lparr>Id' = 1, IsDone = False, Description = ''a'', DueDate = ''2020-01-01''\<rparr>
   \<and> \<not> overdue (\<lambda>s. if s = ''2020-01-01'' then Some 1577836800000 else None) 1577836800000
     \<lparr>Id' = 1, IsDone = False, Description = ''a'', DueDate = ''2020-01-01''\<rparr>
   \<and> \<not> overdue (\<lambda>s. if s = ''2020-01-01'' then Some 1577836800000 else None) 1577836799999
     \<lparr>Id' = 1, IsDone = False, Description = ''a'', DueDate = ''2020-01-01''\<rparr>
   \<and> \<not> overdue (\<lambda>s. if s = ''2020-01-01'' then Some 1577836800000 else None) 1577836800001
     \<lparr>Id' = 2, IsDone = False, Description = ''b'', DueDate = ''soon''\<rparr>"
  unfolding overdue_strict by simp

text \<open>
  C4. \<^verbatim>\<open>changeColumn(name)\<close>: when \<open>name\<close> is the current sort column, the direction
  is negated and the column kept; otherwise the column becomes \<open>name\<close> and the
  direction is kept. In both cases the filter text and the items are kept, and exactly
  one refresh happens: loading is set and one list request, carrying the new filter, is
  sent.
\<close>

theorem changeColumn_effect:
  fixes w :: world and name :: string
  defines "f \<equiv> filter' (ctrl w)"
  defines "w' \<equiv> changeColumn name w"
  shows "(columnName f = name \<longrightarrow>
            sortAscending (filter' (ctrl w')) = (\<not> sortAscending f)
          \<and> columnName (filter' (ctrl w')) = columnName f)
       \<and> (columnName f \<noteq> name \<longrightarrow>
            columnName (filter' (ctrl w')) = name
          \<and> sortAscending (filter' (ctrl w')) = sortAscending f)
       \<and> filterText (filter' (ctrl w')) = filterText f
       \<and> items (ctrl w') = items (ctrl w)
       \<and> loading (ctrl w')
       \<and> calls w' = calls w @ [\<lparr>request = HttpGet ''/api/todo'' (filter' (ctrl w')),
                                  callbacks = refresh_callbacks, settled = False\<rparr>]
       \<and> alerts w' = alerts w"
  by (simp add: f_def w'_def changeColumn_def refresh_def set_loading_def http_send_def
        getItems_def Let_def)

theorem changeColumn_effect_witness:
  "sortAscending (filter' (ctrl (changeColumn ''DueDate'' TodoController_new)))
   \<and> columnName (filter' (ctrl (changeColumn ''DueDate'' TodoController_new))) = ''DueDate''
   \<and> columnName (filter' (ctrl (changeColumn ''Id'' TodoController_new))) = ''Id''
   \<and> \<not> sortAscending (filter' (ctrl (changeColumn ''Id'' TodoController_new)))"
proof -
  have f: "filter' (ctrl TodoController_new)
             = \<lparr>filterText = [], columnName = ''DueDate'', sortAscending = False\<rparr>"
    by (simp add: TodoController_new_def refresh_eq Columns_name_def)
  from changeColumn_effect [where w = TodoController_new and name = "''DueDate''"]
       changeColumn_effect [where w = TodoController_new and name = "''Id''"]
  show ?thesis
    by (simp add: f)
qed

text \<open>
  C10. The constructor sets the filter to the empty text, the column \<^verbatim>\<open>"DueDate"\<close>,
  descending, and triggers one refresh with it. When the server answers that request
  with the single item of the scenario, the items are that single-element sequence and
  loading is false.
\<close>

theorem TodoController_new_scenario:
  "filter' (ctrl TodoController_new)
     = \<lparr>filterText = [], columnName = ''DueDate'', sortAscending = False\<rparr>
   \<and> calls TodoController_new
     = [\<lparr>request = HttpGet ''/api/todo''
                     \<lparr>filterText = [], columnName = ''DueDate'', sortAscending = False\<rparr>,
         callbacks = refresh_callbacks, settled = False\<rparr>]
   \<and> items (ctrl (step (HttpSettled 0 (GetReply (Resolved
          \<lparr>data = [\<lparr>Id' = 1, IsDone = False, Description = ''a'', DueDate = ''2020-01-01''\<rparr>],
           status = st\<rparr>))) TodoController_new))
     = [\<lparr>Id' = 1, IsDone = False, Description = ''a'', DueDate = ''2020-01-01''\<rparr>]
   \<and> \<not> loading (ctrl (step (HttpSettled 0 (GetReply (Resolved
          \<lparr>data = [\<lparr>Id' = 1, IsDone = False, Description = ''a'', DueDate = ''2020-01-01''\<rparr>],
           status = st\<rparr>))) TodoController_new))"
  by (simp add: TodoController_new_def refresh_def set_loading_def http_send_def getItems_def
        Columns_name_def settle_def mark_settled_def Let_def)

theorem TodoController_new_scenario_witness:
  "items (ctrl (step (HttpSettled 0 (GetReply (Resolved \<lparr>data = one_open, status = 200\<rparr>)))
      TodoController_new)) = one_open"
  using TodoController_new_scenario [of 200] by (simp add: one_open_def)

text \<open>
  C5. \<^verbatim>\<open>refresh()\<close> sets loading and sends one list request carrying the three
  fields of the current filter; nothing else changes. Whatever happens in between, when
  that request settles: on success the items become the data of the response, as it
  is, loading is cleared and nothing is alerted; on failure the error is alerted,
  loading is cleared and the items are left as they were.
\<close>

theorem refresh_effect:
  fixes w :: world
  defines "w1 \<equiv> refresh w"
  defines "k \<equiv> length (calls w)"
  shows "loading (ctrl w1)
       \<and> calls w1 = calls w @ [\<lparr>request = HttpGet ''/api/todo'' (filter' (ctrl w)),
                                 callbacks = refresh_callbacks, settled = False\<rparr>]
       \<and> items (ctrl w1) = items (ctrl w)
       \<and> filter' (ctrl w1) = filter' (ctrl w)
       \<and> alerts w1 = alerts w
       \<and> (\<forall>es. \<not> settled (calls (run es w1) ! k) \<longrightarrow>
             items (ctrl (step (HttpSettled k (GetReply (Resolved r))) (run es w1))) = data r
           \<and> \<not> loading (ctrl (step (HttpSettled k (GetReply (Resolved r))) (run es w1)))
           \<and> alerts (step (HttpSettled k (GetReply (Resolved r))) (run es w1))
               = alerts (run es w1)
           \<and> items (ctrl (step (HttpSettled k (GetReply (Rejected err))) (run es w1)))
               = items (ctrl (run es w1))
           \<and> \<not> loading (ctrl (step (HttpSettled k (GetReply (Rejected err))) (run es w1)))
           \<and> alerts (step (HttpSettled k (GetReply (Rejected err))) (run es w1))
               = alerts (run es w1) @ [err])"
proof -
  have calls1: "calls w1 = calls w @ [refresh_call (filter' (ctrl w))]"
    by (simp add: w1_def refresh_eq)
  then have k1: "k < length (calls w1)" and cb1: "callbacks (calls w1 ! k) = refresh_callbacks"
    by (simp_all add: k_def refresh_call_def)
  have later: "settle k (GetReply s) (run es w1)
                 = refresh_then (getItems_then s) (mark_settled k (run es w1))"
    if "\<not> settled (calls (run es w1) ! k)" for es s
    using run_old_call(1) [OF k1] that
  proof (rule settle_refresh_call)
    show "callbacks (calls (run es w1) ! k) = refresh_callbacks"
      using run_old_call(2) [OF k1] cb1 by simp
  qed
  have now: "loading (ctrl w1)" "items (ctrl w1) = items (ctrl w)"
    "filter' (ctrl w1) = filter' (ctrl w)" "alerts w1 = alerts w"
    by (simp_all add: w1_def refresh_eq)
  from calls1 have "calls w1 = calls w @ [\<lparr>request = HttpGet ''/api/todo'' (filter' (ctrl w)),
                                 callbacks = refresh_callbacks, settled = False\<rparr>]"
    by (simp add: refresh_call_def getItems_def)
  with now show ?thesis
    by (simp add: later mark_settled_def set_loading_def alert_def)
qed

theorem refresh_effect_witness:
  "\<not> settled (calls (run [HttpSettled 0 (GetReply (Rejected server_error))]
                       (refresh TodoController_new)) ! 1)
   \<and> items (ctrl (step (HttpSettled 1 (GetReply (Resolved \<lparr>data = one_open, status = 200\<rparr>)))
        (run [HttpSettled 0 (GetReply (Rejected server_error))] (refresh TodoController_new))))
       = one_open
   \<and> \<not> loading (ctrl (step (HttpSettled 1 (GetReply (Resolved \<lparr>data = one_open, status = 200\<rparr>)))
        (run [HttpSettled 0 (GetReply (Rejected server_error))] (refresh TodoController_new))))
   \<and> alerts (step (HttpSettled 1 (GetReply (Rejected server_error)))
        (run [HttpSettled 0 (GetReply (Rejected server_error))] (refresh TodoController_new)))
       = [server_error, server_error]"
proof -
  let ?es = "[HttpSettled 0 (GetReply (Rejected server_error))]"
  have k: "length (calls TodoController_new) = 1"
    by (simp add: TodoController_new_def refresh_eq)
  have open1: "\<not> settled (calls (run ?es (refresh TodoController_new)) ! 1)"
    by (simp add: TodoController_new_def refresh_eq refresh_call_def settle_def mark_settled_def
          set_loading_def alert_def)
  have before: "alerts (run ?es (refresh TodoController_new)) = [server_error]"
    by (simp add: TodoController_new_def refresh_eq refresh_call_def settle_def mark_settled_def
          set_loading_def alert_def)
  note inst = refresh_effect [where w = TodoController_new
      and r = "\<lparr>data = one_open, status = 200\<rparr>" and err = server_error, unfolded k,
      THEN conjunct2, THEN conjunct2, THEN conjunct2, THEN conjunct2, THEN conjunct2,
      rule_format, OF open1]
  from inst open1 before show ?thesis
    by simp
qed

text \<open>
  C9. \<^verbatim>\<open>update(item)\<close> sets loading and sends the save request; items and filter are
  kept. Whatever happens in between, when that request settles loading is cleared and
  items and filter are left as they were; on failure, and only then, the error is
  alerted.
\<close>

theorem update_effect:
  fixes w :: world and todoItem :: ITodoItem
  defines "w1 \<equiv> update todoItem w"
  defines "k \<equiv> length (calls w)"
  shows "loading (ctrl w1)
       \<and> calls w1 = calls w @ [\<lparr>request = HttpPost ''/api/todo'' (JSON_stringify todoItem),
                                 callbacks = update_callbacks, settled = False\<rparr>]
       \<and> items (ctrl w1) = items (ctrl w)
       \<and> filter' (ctrl w1) = filter' (ctrl w)
       \<and> alerts w1 = alerts w
       \<and> (\<forall>es. \<not> settled (calls (run es w1) ! k) \<longrightarrow>
             \<not> loading (ctrl (step (HttpSettled k (PostReply (Resolved r))) (run es w1)))
           \<and> items (ctrl (step (HttpSettled k (PostReply (Resolved r))) (run es w1)))
               = items (ctrl (run es w1))
           \<and> filter' (ctrl (step (HttpSettled k (PostReply (Resolved r))) (run es w1)))
               = filter' (ctrl (run es w1))
           \<and> alerts (step (HttpSettled k (PostReply (Resolved r))) (run es w1))
               = alerts (run es w1)
           \<and> \<not> loading (ctrl (step (HttpSettled k (PostReply (Rejected err))) (run es w1)))
           \<and> items (ctrl (step (HttpSettled k (PostReply (Rejected err))) (run es w1)))
               = items (ctrl (run es w1))
           \<and> filter' (ctrl (step (HttpSettled k (PostReply (Rejected err))) (run es w1)))
               = filter' (ctrl (run es w1))
           \<and> alerts (step (HttpSettled k (PostReply (Rejected err))) (run es w1))
               = alerts (run es w1) @ [err])"
proof -
  have calls1: "calls w1 = calls w @ [\<lparr>request = HttpPost ''/api/todo'' (JSON_stringify todoItem),
                                 callbacks = update_callbacks, settled = False\<rparr>]"
    by (simp add: w1_def update_def set_loading_def http_send_def updateItem_def Let_def)
  then have k1: "k < length (calls w1)" and cb1: "callbacks (calls w1 ! k) = update_callbacks"
    by (simp_all add: k_def)
  have later: "settle k (PostReply s) (run es w1)
                 = update_then (updateItem_then s) (mark_settled k (run es w1))"
    if "\<not> settled (calls (run es w1) ! k)" for es s
    using run_old_call(1) [OF k1] that
  proof (rule settle_update_call)
    show "callbacks (calls (run es w1) ! k) = update_callbacks"
      using run_old_call(2) [OF k1] cb1 by simp
  qed
  have now: "loading (ctrl w1)" "items (ctrl w1) = items (ctrl w)"
    "filter' (ctrl w1) = filter' (ctrl w)" "alerts w1 = alerts w"
    by (simp_all add: w1_def update_def set_loading_def http_send_def Let_def)
  with calls1 show ?thesis
    by (simp add: later mark_settled_def set_loading_def alert_def)
qed

theorem update_effect_witness:
  "\<not> settled (calls (run [ChangeColumn ''Id''] (update (hd three_done) (loaded three_done))) ! 1)
   \<and> \<not> loading (ctrl (step (HttpSettled 1 (PostReply (Rejected server_error)))
        (run [ChangeColumn ''Id''] (update (hd three_done) (loaded three_done)))))
   \<and> items (ctrl (step (HttpSettled 1 (PostReply (Rejected server_error)))
        (run [ChangeColumn ''Id''] (update (hd three_done) (loaded three_done))))) = three_done
   \<and> alerts (step (HttpSettled 1 (PostReply (Rejected server_error)))
        (run [ChangeColumn ''Id''] (update (hd three_done) (loaded three_done)))) = [server_error]
   \<and> alerts (step (HttpSettled 1 (PostReply (Resolved \<lparr>data = hd three_done, status = 200\<rparr>)))
        (run [ChangeColumn ''Id''] (update (hd three_done) (loaded three_done)))) = []"
proof -
  let ?w1 = "update (hd three_done) (loaded three_done)"
  let ?es = "[ChangeColumn ''Id'']"
  have k: "length (calls (loaded three_done)) = 1"
    by (simp add: loaded_eq)
  have w1: "update item w = w\<lparr>ctrl := (ctrl w)\<lparr>loading := True\<rparr>,
       calls := calls w @
         [\<lparr>request = updateItem item, callbacks = update_callbacks, settled = False\<rparr>]\<rparr>"
    for item w
    by (simp add: update_def set_loading_def http_send_def Let_def)
  have open1: "\<not> settled (calls (run ?es ?w1) ! 1)"
    by (simp add: w1 loaded_eq changeColumn_def refresh_eq Let_def)
  have before: "alerts (run ?es ?w1) = []" "items (ctrl (run ?es ?w1)) = three_done"
    by (simp_all add: w1 loaded_eq changeColumn_def refresh_eq Let_def)
  note inst = update_effect [where w = "loaded three_done" and todoItem = "hd three_done"
      and r = "\<lparr>data = hd three_done, status = 200\<rparr>" and err = server_error, unfolded k,
      THEN conjunct2, THEN conjunct2, THEN conjunct2, THEN conjunct2, THEN conjunct2,
      rule_format, OF open1]
  from inst open1 before show ?thesis
    by simp
qed

text \<open>
  C3. A confirmed \<^verbatim>\<open>removeCompleted()\<close> on a collection without a done item only
  sets loading (and allocates its \<^verbatim>\<open>count\<close>): no call is sent, neither a delete nor a
  refresh. Its closure is attached to no call, so nothing it started can refresh or
  clear loading later; when nothing else is in flight, no settlement ever changes the
  world again and loading stays set.
\<close>

theorem removeCompleted_nothing_done:
  assumes none: "\<forall>item \<in> set (items (ctrl w)). \<not> IsDone item"
  shows "removeCompleted True w
           = w\<lparr>ctrl := (ctrl w)\<lparr>loading := True\<rparr>,
                count_store := (count_store w)(next_count w := 0),
                next_count := Suc (next_count w)\<rparr>
       \<and> (wf_world w \<longrightarrow>
            (\<forall>cl \<in> set (calls (removeCompleted True w)).
               callbacks cl \<noteq> checkCount_callbacks (next_count w)))
       \<and> ((\<forall>cl \<in> set (calls w). settled cl) \<longrightarrow>
            (\<forall>es. (\<forall>e \<in> set es. is_settlement e) \<longrightarrow>
               run es (removeCompleted True w) = removeCompleted True w))"
proof -
  from none have nil: "filter IsDone (items (ctrl w)) = []"
    by (simp add: filter_empty_conv)
  have eq: "removeCompleted True w
           = w\<lparr>ctrl := (ctrl w)\<lparr>loading := True\<rparr>,
                count_store := (count_store w)(next_count w := 0),
                next_count := Suc (next_count w)\<rparr>"
    by (simp add: removeCompleted_confirmed_eq nil)
  then have calls: "calls (removeCompleted True w) = calls w"
    by simp
  have fresh: "callbacks cl \<noteq> checkCount_callbacks (next_count w)"
    if "wf_world w" "cl \<in> set (calls w)" for cl
  proof -
    from that(2) obtain j where "j < length (calls w)" "cl = calls w ! j"
      by (auto simp: in_set_conv_nth)
    with that(1) show ?thesis
      by (auto simp: wf_world_def)
  qed
  have stuck: "run es (removeCompleted True w) = removeCompleted True w"
    if "\<forall>cl \<in> set (calls w). settled cl" "\<forall>e \<in> set es. is_settlement e" for es
    using that by (intro settled_world_stuck) (simp_all add: calls)
  from eq fresh stuck show ?thesis
    unfolding calls by blast
qed

theorem removeCompleted_nothing_done_witness:
  "wf_world (loaded one_open)
   \<and> loading (ctrl (removeCompleted True (loaded one_open)))
   \<and> calls (removeCompleted True (loaded one_open)) = calls (loaded one_open)
   \<and> run [HttpSettled 0 (GetReply (Resolved \<lparr>data = [], status = 200\<rparr>)),
           HttpSettled 1 deleted]
        (removeCompleted True (loaded one_open))
       = removeCompleted True (loaded one_open)"
proof -
  let ?w = "loaded one_open"
  have none: "\<forall>item \<in> set (items (ctrl ?w)). \<not> IsDone item"
    by (simp add: loaded_eq one_open_def)
  have wf: "wf_world ?w"
    by (simp add: wf_world_def loaded_eq)
  have quiet: "\<forall>cl \<in> set (calls ?w). settled cl"
    by (simp add: loaded_eq)
  note inst = removeCompleted_nothing_done [OF none]
  from inst have eq: "removeCompleted True ?w
           = ?w\<lparr>ctrl := (ctrl ?w)\<lparr>loading := True\<rparr>,
                count_store := (count_store ?w)(next_count ?w := 0),
                next_count := Suc (next_count ?w)\<rparr>"
    by (rule conjunct1)
  from inst quiet
  have stuck: "\<forall>es. (\<forall>e \<in> set es. is_settlement e) \<longrightarrow>
               run es (removeCompleted True ?w) = removeCompleted True ?w"
    by blast
  have "run [HttpSettled 0 (GetReply (Resolved \<lparr>data = [], status = 200\<rparr>)),
                  HttpSettled 1 deleted] (removeCompleted True ?w) = removeCompleted True ?w"
    by (rule stuck [rule_format]) auto
  moreover have "loading (ctrl (removeCompleted True ?w))"
    and "calls (removeCompleted True ?w) = calls ?w"
    by (simp_all add: eq)
  ultimately show ?thesis
    using wf by simp
qed

text \<open>
  C1, as amended: for every collection with at least one done item, a confirmed
  \<^verbatim>\<open>removeCompleted()\<close> sets loading and sends exactly one delete call per done
  item, in order, and nothing else. In every run of events that follows, whatever
  other events are interleaved and whether the deletes succeed or fail, the steps
  that settle these delete calls trigger no refresh while one of them has not settled,
  and exactly one refresh once all of them have.
\<close>

theorem removeCompleted_fan_in:
  fixes w :: world
  defines "w1 \<equiv> removeCompleted True w"
  defines "D \<equiv> {length (calls w) ..< length (calls (removeCompleted True w))}"
  assumes wf: "wf_world w" and some: "\<exists>item \<in> set (items (ctrl w)). IsDone item"
  shows "loading (ctrl w1)
       \<and> calls w1 = calls w @ map (\<lambda>item. \<lparr>request = HttpDelete ''/api/todo/'' (Id' item),
                                            callbacks = checkCount_callbacks (next_count w),
                                            settled = False\<rparr>)
                                (filter IsDone (items (ctrl w)))
       \<and> (\<forall>es. refreshes_by D es w1
                 = (if \<forall>k \<in> D. settled (calls (run es w1) ! k) then 1 else 0))"
proof -
  let ?n = "length (filter IsDone (items (ctrl w)))"
  have D: "D = {length (calls w) ..< length (calls w) + ?n}"
    by (simp add: D_def removeCompleted_confirmed_eq)
  have inv: "batch_inv (next_count w) D w1" and p: "pending D w1 = D"
    unfolding D w1_def using wf by (rule removeCompleted_batch_inv)+
  from some have "filter IsDone (items (ctrl w)) \<noteq> []"
    by (simp add: filter_empty_conv)
  then have "D \<noteq> {}"
    by (simp add: D)
  with p have "pending D w1 \<noteq> {}"
    by simp
  moreover have "(pending D (run es w1) = {}) = (\<forall>k \<in> D. settled (calls (run es w1) ! k))"
    for es
    by (auto simp: pending_def)
  ultimately have count: "refreshes_by D es w1
                 = (if \<forall>k \<in> D. settled (calls (run es w1) ! k) then 1 else 0)" for es
    using refreshes_by_batch [OF inv, of es] by simp
  have "calls w1 = calls w @ map (delete_call (next_count w)) (filter IsDone (items (ctrl w)))"
    by (simp add: w1_def removeCompleted_confirmed_eq)
  moreover have "delete_call (next_count w)
      = (\<lambda>item. \<lparr>request = HttpDelete ''/api/todo/'' (Id' item),
                 callbacks = checkCount_callbacks (next_count w), settled = False\<rparr>)"
    by (simp add: delete_call_def deleteItem_def fun_eq_iff)
  moreover have "loading (ctrl w1)"
    by (simp add: w1_def removeCompleted_confirmed_eq)
  ultimately show ?thesis
    using count by simp
qed

theorem removeCompleted_fan_in_witness:
  "wf_world (loaded three_done)
   \<and> (\<exists>item \<in> set (items (ctrl (loaded three_done))). IsDone item)
   \<and> refreshes_by {1..<4} [HttpSettled 1 deleted, HttpSettled 3 deleted]
        (removeCompleted True (loaded three_done)) = 0
   \<and> refreshes_by {1..<4} [HttpSettled 1 deleted, HttpSettled 3 deleted, HttpSettled 2 delete_failed]
        (removeCompleted True (loaded three_done)) = 1"
proof -
  let ?w = "loaded three_done"
  let ?w1 = "removeCompleted True ?w"
  have wf: "wf_world ?w"
    by (simp add: wf_world_def loaded_eq)
  have some: "\<exists>item \<in> set (items (ctrl ?w)). IsDone item"
    by (simp add: loaded_eq three_done_def)
  have w1: "?w1 =
     \<lparr>ctrl = \<lparr>filter' = \<lparr>filterText = [], columnName = ''DueDate'', sortAscending = False\<rparr>,
              items = three_done, loading = True\<rparr>,
      count_store = (\<lambda>c. 0)(0 := 3),
      next_count = 1,
      calls = [\<lparr>request = HttpGet ''/api/todo''
                   \<lparr>filterText = [], columnName = ''DueDate'', sortAscending = False\<rparr>,
                callbacks = refresh_callbacks, settled = True\<rparr>,
               \<lparr>request = HttpDelete ''/api/todo/'' 1,
                callbacks = checkCount_callbacks 0, settled = False\<rparr>,
               \<lparr>request = HttpDelete ''/api/todo/'' 3,
                callbacks = checkCount_callbacks 0, settled = False\<rparr>,
               \<lparr>request = HttpDelete ''/api/todo/'' 4,
                callbacks = checkCount_callbacks 0, settled = False\<rparr>],
      alerts = []\<rparr>"
    by (simp add: removeCompleted_confirmed_eq loaded_eq)
      (simp add: three_done_def delete_call_def deleteItem_def)
  have D: "{length (calls ?w) ..< length (calls ?w1)} = {1..<4}"
    by (simp add: w1) (simp add: loaded_eq eval_nat_numeral)
  from removeCompleted_fan_in [OF wf some]
  have count: "refreshes_by {1..<4} es ?w1
                 = (if \<forall>k \<in> {1..<4}. settled (calls (run es ?w1) ! k) then 1 else 0)" for es
    unfolding D by blast
  have two: "\<not> settled (calls (run [HttpSettled 1 deleted, HttpSettled 3 deleted] ?w1) ! 2)"
    by (simp add: w1 settle_def mark_settled_def deleted_def checkCount_def Let_def
          eval_nat_numeral)
  have three: "settled (calls (run [HttpSettled 1 deleted, HttpSettled 3 deleted,
                                     HttpSettled 2 delete_failed] ?w1) ! k)"
    if "k \<in> {1..<4}" for k
  proof -
    from that have "k = 1 \<or> k = 2 \<or> k = 3"
      by auto
    then show ?thesis
      by (auto simp: w1 settle_def mark_settled_def deleted_def delete_failed_def checkCount_def
            Let_def refresh_eq eval_nat_numeral)
  qed
  from two have "refreshes_by {1..<4} [HttpSettled 1 deleted, HttpSettled 3 deleted] ?w1 = 0"
    unfolding count by auto
  moreover from three
  have "refreshes_by {1..<4} [HttpSettled 1 deleted, HttpSettled 3 deleted,
                                     HttpSettled 2 delete_failed] ?w1 = 1"
    unfolding count by simp
  ultimately show ?thesis
    using wf some by simp
qed

text \<open>
  C1 as it is stated, for every collection, fails on a collection without a done item:
  no call is sent, so every delete call of the activation has settled at once, and yet
  no refresh is triggered; loading is left set.
\<close>

theorem removeCompleted_fan_in_counterexample:
  "refreshes_by {length (calls (loaded one_open))
                   ..< length (calls (removeCompleted True (loaded one_open)))}
       [] (removeCompleted True (loaded one_open))
     \<noteq> (if \<forall>k \<in> {length (calls (loaded one_open))
                         ..< length (calls (removeCompleted True (loaded one_open)))}.
               settled (calls (run [] (removeCompleted True (loaded one_open))) ! k)
         then 1 else 0)
   \<and> calls (removeCompleted True (loaded one_open)) = calls (loaded one_open)
   \<and> loading (ctrl (removeCompleted True (loaded one_open)))"
  by (simp add: removeCompleted_confirmed_eq loaded_eq one_open_def)

text \<open>
  C2. The save operation of the service rejects with the underlying error, but it
  resolves with the response object of the POST, not with the item that the server
  acknowledged: the item is the \<^verbatim>\<open>data\<close> of what the promise carries, where the
  save operation of the spec, and the declared type \<^verbatim>\<open>ng.IPromise<ITodoItem>\<close>,
  give the item itself.
\<close>

theorem updateItem_resolves_with_response:
  "updateItem_then (Resolved \<lparr>data = ack, status = 200\<rparr>) = Resolved \<lparr>data = ack, status = 200\<rparr>
   \<and> save_spec (Resolved \<lparr>data = ack, status = 200\<rparr>) = Resolved ack
   \<and> getItems_then (Resolved \<lparr>data = list, status = 200\<rparr>) = Resolved list
   \<and> updateItem_then (Rejected err) = Rejected err"
  by simp

end
